theory Spec2Isabelle
  imports Main "HOL-Library.AList" "HOL-Library.Sublist" "HOL-Library.Multiset"
begin

section \<open>The Vault handler of apps/vault.py\<close>

text \<open>
  The module reads secrets from a Vault cluster with AppRole credentials, merges the
  bundles of several paths and writes them into the environment of the process.
  Everything the methods touch outside their arguments is a field of the record
  \<open>world\<close>: \<open>os.environ\<close>, \<open>sys.argv\<close>, the lines given to the logger and to
  \<open>print\<close>, the requests sent to the server, and the answers of the server and of
  \<open>json.dumps\<close>. A method takes a world and returns the world it leaves behind
  together with either the exception it raises (\<open>Inl\<close>) or its value (\<open>Inr\<close>), so
  that what a failed call has already written stays visible.
\<close>

subsection \<open>Values\<close>

text \<open>
  The data of a secret is decoded JSON: \<open>None\<close>, booleans, integers, strings, lists
  and dictionaries (floating point numbers are left out). A dictionary is an
  association list in insertion order; Python keeps its keys distinct.
\<close>

datatype pyval =
    PNone
  | PBool bool
  | PInt int
  | PStr string
  | PList "pyval list"
  | PDict "(string \<times> pyval) list"

type_synonym dict = "(string \<times> pyval) list"

text \<open>\<open>d.keys()\<close>\<close>

definition keys :: "dict \<Rightarrow> string list" where
  "keys d = map fst d"

text \<open>
  \<open>list(data.keys() & results.keys())\<close>: the keys of \<open>data\<close> that \<open>results\<close> has too.
  Python fixes no order for the elements of the intersection; the model lists them in
  the order of \<open>data\<close>, and only the set of the list is meant.
\<close>

definition common_keys :: "dict \<Rightarrow> dict \<Rightarrow> string list" where
  "common_keys data results = filter (\<lambda>k. k \<in> set (keys results)) (keys data)"

text \<open>\<open>results.update(data)\<close>: a key that is present keeps its place, a new key is appended.\<close>

definition update_dict :: "dict \<Rightarrow> dict \<Rightarrow> dict" where
  "update_dict results data = foldl (\<lambda>acc (k, v). AList.update k v acc) results data"

text \<open>\<open>path if isinstance(path, list) else [path]\<close>\<close>

fun as_list :: "pyval \<Rightarrow> pyval list" where
  "as_list (PList ps) = ps"
| "as_list p = [p]"

subsection \<open>Exceptions and output\<close>

datatype exn =
    NameError
    \<comment> \<open>the module-level name \<open>logger\<close> is not bound\<close>
  | RuntimeError
    \<comment> \<open>a bare \<open>raise\<close> when no exception is being handled\<close>
  | AttributeError
    \<comment> \<open>\<open>client.token\<close> where \<open>client\<close> is \<open>None\<close>\<close>
  | KeyError
  | IndexError
  | TypeError
    \<comment> \<open>\<open>os.environ[key] = value\<close> with a value that is not a \<open>str\<close>\<close>
  | ValueError
    \<comment> \<open>\<open>os.environ[key] = value\<close> with a NUL character, or \<open>=\<close> in the name\<close>
  | OSError
    \<comment> \<open>\<open>os.environ[''] = value\<close>\<close>
  | CredentialsNotPresent
    \<comment> \<open>\<open>ValueError("role_id and/or secret_id not present as environment variable")\<close>\<close>
  | CannotInstantiateClient
    \<comment> \<open>\<open>ValueError("cannot instantiate hvac.Client class while using: approle.login")\<close>\<close>
  | VaultPathDuplicated string pyval string
    \<comment> \<open>\<open>Exception("VAULT_PATH DUPLICATED environment in config: key => env[key] => secret")\<close>\<close>
  | VaultPathCannotRetrieve string pyval
    \<comment> \<open>\<open>Exception("VAULT_PATH cannot retrieve secret in config: key => env[key]")\<close>\<close>
  | DuplicatedEnvironment string
    \<comment> \<open>\<open>Exception("DUPLICATED environment in config: key")\<close>\<close>
  | PathCannotBeRetrieved string
    \<comment> \<open>\<open>Exception("Path ... cannot be retrieved from Vault. Check settings!")\<close>\<close>
  | CannotDetermineConfigPaths
    \<comment> \<open>\<open>Exception("Not able to determine CONFIG PATHS in DE environment (VAULT)")\<close>\<close>
  | Hvac string
    \<comment> \<open>an exception raised inside the hvac client, by its name\<close>

datatype message =
    UnableToFetchToken
  | CredentialsNotInEnvironment
  | CannotInstantiate
  | DuplicateKeysFetched "string list"
  | GetSecretDeprecated
  | GetConfigPathDeprecated
  | CannotAuthenticate exn
  | DuplicatedInConfig string string pyval

subsection \<open>The handler, the server and the process\<close>

record handler =
  role_id :: "string option"
  secret_id :: "string option"
  url :: "string option"

datatype verify = VerifyFlag bool | VerifyBundle string

text \<open>
  What \<open>client.auth.approle.login(...)\<close> does: it raises, or it returns a response
  without the field \<open>["auth"]["client_token"]\<close>, or one whose field holds \<open>None\<close> or
  a string.
\<close>

datatype login_outcome =
    LoginRaises exn
  | NoClientToken
  | ClientToken "string option"

datatype request = Login | Read pyval

record client =
  token :: "string option"

text \<open>
  The binding of the module-level name \<open>logger\<close> is commented out in the source
  (line 13), together with the import of the package that provides it. The model
  takes it as a parameter: \<open>logger_bound\<close> says whether the name is bound when a
  method runs. Where it is not, every \<open>logger.error\<close> and \<open>logger.warning\<close> raises
  \<open>NameError\<close>; where it is, the call records its line in \<open>log\<close> and returns.

  \<open>vault_read p\<close> is what \<open>client.secrets.kv.v2.read_secret(path=p)["data"]["data"]\<close>
  gives to a client that holds a token: an exception raised on the way, or the
  dictionary stored at the path.

  \<open>handled\<close> is the exception that the caller is handling when it calls a method
  (\<open>None\<close> outside every \<open>except\<close> block): a bare \<open>raise\<close> raises it again, and
  raises \<open>RuntimeError\<close> when there is none.

  A string is the list of the bytes of its UTF-8 encoding. \<open>split("/")\<close>,
  \<open>replace(".py", "")\<close> and \<open>startswith("VAULT_PATH_")\<close> look for ASCII bytes, which
  occur in no other character of the encoding, so they are defined on the bytes.
  \<open>str.upper\<close> is the case mapping of the Python runtime over all of Unicode; it is
  the parameter \<open>str_upper\<close>, as \<open>json.dumps\<close> is \<open>json_dumps\<close>.
\<close>

record world =
  environ :: "string \<rightharpoonup> string"
  argv :: "string list"
  logger_bound :: bool
  handled :: "exn option"
  log :: "message list"
  stdout :: "message list"
  requests :: "request list"
  vault_login :: "handler \<Rightarrow> verify \<Rightarrow> login_outcome"
  vault_read :: "pyval \<Rightarrow> exn + dict"
  json_dumps :: "pyval \<Rightarrow> string"
  str_upper :: "string \<Rightarrow> string"

type_synonym 'a result = "world \<times> (exn + 'a)"

text \<open>\<open>a or b\<close> on optional strings: the first one unless it is \<open>None\<close> or empty.\<close>

fun py_or :: "string option \<Rightarrow> string option \<Rightarrow> string option" where
  "py_or (Some (c # cs)) b = Some (c # cs)"
| "py_or a b = b"

text \<open>\<open>VaultHandler.__init__\<close>\<close>

definition VaultHandler :: "string option \<Rightarrow> string option \<Rightarrow> string option \<Rightarrow> world \<Rightarrow> handler" where
  "VaultHandler url_arg role_id_arg secret_id_arg w =
     \<lparr> role_id = py_or role_id_arg (environ w ''role_id''),
       secret_id = py_or secret_id_arg (environ w ''secret_id''),
       url = py_or url_arg (environ w ''VAULT_ADDR'') \<rparr>"

text \<open>\<open>logger.error(...)\<close>, \<open>logger.warning(...)\<close> and \<open>print(...)\<close>\<close>

definition logger_call :: "message \<Rightarrow> world \<Rightarrow> unit result" where
  "logger_call m w =
     (if logger_bound w then (w\<lparr>log := log w @ [m]\<rparr>, Inr ()) else (w, Inl NameError))"

text \<open>The exception of a bare \<open>raise\<close>.\<close>

definition bare_raise :: "world \<Rightarrow> exn" where
  "bare_raise w = (case handled w of None \<Rightarrow> RuntimeError | Some e \<Rightarrow> e)"

definition print :: "message \<Rightarrow> world \<Rightarrow> world" where
  "print m w = w\<lparr>stdout := stdout w @ [m]\<rparr>"

text \<open>
  \<open>os.environ[key] = value\<close> on POSIX. The value is checked first (\<open>TypeError\<close> unless
  it is a \<open>str\<close>), then the name and the value are given to \<open>putenv\<close>, which refuses a
  NUL character and a name with \<open>=\<close> (\<open>ValueError\<close>) and an empty name (\<open>OSError\<close>).
  Nothing is stored when it raises.
\<close>

definition environ_setitem :: "string \<Rightarrow> pyval \<Rightarrow> world \<Rightarrow> unit result" where
  "environ_setitem key val w =
     (case val of
        PStr s \<Rightarrow>
          if CHR 0x00 \<in> set key \<or> CHR 0x00 \<in> set s \<or> CHR ''='' \<in> set key then (w, Inl ValueError)
          else if key = [] then (w, Inl OSError)
          else (w\<lparr>environ := (environ w)(key \<mapsto> s)\<rparr>, Inr ())
      | _ \<Rightarrow> (w, Inl TypeError))"

text \<open>\<open>os.environ[key]\<close>\<close>

definition environ_getitem :: "string \<Rightarrow> world \<Rightarrow> exn + string" where
  "environ_getitem key w = (case environ w key of None \<Rightarrow> Inl KeyError | Some s \<Rightarrow> Inr s)"

text \<open>The truth value of \<open>client.token\<close> and of \<open>response["auth"]["client_token"]\<close>.\<close>

fun truthy :: "string option \<Rightarrow> bool" where
  "truthy (Some (c # cs)) = True"
| "truthy t = False"

subsection \<open>The methods\<close>

text \<open>\<open>_approle_login\<close>: the client, or \<open>None\<close> after the logger has been told.\<close>

definition approle_login :: "handler \<Rightarrow> verify \<Rightarrow> world \<Rightarrow> client option result" where
  "approle_login h v w =
     (let w1 = w\<lparr>requests := requests w @ [Login]\<rparr> in
      case vault_login w h v of
        LoginRaises e \<Rightarrow> (w1, Inl e)
      | NoClientToken \<Rightarrow> (w1, Inl KeyError)
      | ClientToken t \<Rightarrow>
          if truthy t then (w1, Inr (Some \<lparr>token = t\<rparr>))
          else (case logger_call UnableToFetchToken w1 of
                  (w2, Inl e) \<Rightarrow> (w2, Inl e)
                | (w2, Inr u) \<Rightarrow> (w2, Inr None)))"

text \<open>\<open>_check_hvac_client_login\<close>: every exception is printed and turned into \<open>None\<close>.\<close>

definition check_hvac_client_login :: "handler \<Rightarrow> verify \<Rightarrow> world \<Rightarrow> world \<times> client option" where
  "check_hvac_client_login h v w =
     (let w1 = w\<lparr>requests := requests w @ [Login]\<rparr> in
      case vault_login w h v of
        LoginRaises e \<Rightarrow> (print (CannotAuthenticate e) w1, None)
      | NoClientToken \<Rightarrow> (print (CannotAuthenticate KeyError) w1, None)
      | ClientToken t \<Rightarrow> (w1, Some \<lparr>token = t\<rparr>))"

text \<open>\<open>_check_env_credentials\<close>\<close>

definition check_env_credentials :: "world \<Rightarrow> bool" where
  "check_env_credentials w = (environ w ''role_id'' \<noteq> None \<and> environ w ''secret_id'' \<noteq> None)"

text \<open>The loop of \<open>read_path\<close> over the paths (lines 152 to 163).\<close>

fun read_loop :: "pyval list \<Rightarrow> dict \<Rightarrow> world \<Rightarrow> dict result" where
  "read_loop [] results w = (w, Inr results)"
| "read_loop (p # ps) results w =
     (let w1 = w\<lparr>requests := requests w @ [Read p]\<rparr> in
      case vault_read w p of
        Inl e \<Rightarrow> (w1, Inl e)
      | Inr data \<Rightarrow>
          if common_keys data results \<noteq> [] then
            (case logger_call (DuplicateKeysFetched (common_keys data results)) w1 of
               (w2, Inl e) \<Rightarrow> (w2, Inl e)
             | (w2, Inr u) \<Rightarrow> (w2, Inl (bare_raise w2)))
          else read_loop ps (update_dict results data) w1)"

text \<open>The loop of \<open>read_path\<close> that writes the result into the environment (lines 166, 167).\<close>

fun environ_write :: "dict \<Rightarrow> world \<Rightarrow> unit result" where
  "environ_write [] w = (w, Inr ())"
| "environ_write ((key, val) # rest) w =
     (case environ_setitem key val w of
        (w1, Inl e) \<Rightarrow> (w1, Inl e)
      | (w1, Inr u) \<Rightarrow> environ_write rest w1)"

definition read_path :: "handler \<Rightarrow> pyval \<Rightarrow> bool \<Rightarrow> verify \<Rightarrow> world \<Rightarrow> dict result" where
  "read_path h path to_environ v w =
     (if \<not> check_env_credentials w then
        (case logger_call CredentialsNotInEnvironment w of
           (w1, Inl e) \<Rightarrow> (w1, Inl e)
         | (w1, Inr u) \<Rightarrow> (w1, Inl (bare_raise w1)))
      else
        (case approle_login h v w of
           (w1, Inl e) \<Rightarrow> (w1, Inl e)
         | (w1, Inr None) \<Rightarrow> (w1, Inl AttributeError)
         | (w1, Inr (Some c)) \<Rightarrow>
             if \<not> truthy (token c) then
               (case logger_call CannotInstantiate w1 of
                  (w2, Inl e) \<Rightarrow> (w2, Inl e)
                | (w2, Inr u) \<Rightarrow> (w2, Inl (bare_raise w2)))
             else
               (case read_loop (as_list path) [] w1 of
                  (w2, Inl e) \<Rightarrow> (w2, Inl e)
                | (w2, Inr results) \<Rightarrow>
                    if to_environ then
                      (case environ_write results w2 of
                         (w3, Inl e) \<Rightarrow> (w3, Inl e)
                       | (w3, Inr u) \<Rightarrow> (w3, Inr results))
                    else (w2, Inr results))))"

text \<open>
  What \<open>get_secret\<close> returns: \<open>SecretsOk d\<close> is the tuple \<open>(True, d)\<close> of line 218 and
  \<open>SecretsErrors ks\<close> the tuple \<open>(False, {"errors": "... duplicated keys: ks"})\<close> of
  line 215; \<open>state\<close> is the first component.
\<close>

datatype secret_result = SecretsOk dict | SecretsErrors "string list"

fun state :: "secret_result \<Rightarrow> bool" where
  "state (SecretsOk d) = True"
| "state (SecretsErrors ks) = False"

text \<open>The loop of \<open>get_secret\<close> over the paths (lines 205 to 218).\<close>

fun secret_loop :: "pyval list \<Rightarrow> dict \<Rightarrow> world \<Rightarrow> secret_result result" where
  "secret_loop [] result_dict w = (w, Inr (SecretsOk result_dict))"
| "secret_loop (single_path # ps) result_dict w =
     (let w1 = w\<lparr>requests := requests w @ [Read single_path]\<rparr> in
      case vault_read w single_path of
        Inl e \<Rightarrow> (w1, Inl e)
      | Inr dict_with_secrets \<Rightarrow>
          if common_keys dict_with_secrets result_dict \<noteq> [] then
            (w1, Inr (SecretsErrors (common_keys dict_with_secrets result_dict)))
          else secret_loop ps (update_dict result_dict dict_with_secrets) w1)"

definition get_secret :: "handler \<Rightarrow> pyval \<Rightarrow> world \<Rightarrow> secret_result result" where
  "get_secret h path w =
     (case logger_call GetSecretDeprecated w of
        (w0, Inl e) \<Rightarrow> (w0, Inl e)
      | (w0, Inr u) \<Rightarrow>
          if \<not> check_env_credentials w0 then (w0, Inl CredentialsNotPresent)
          else
            (case check_hvac_client_login h (VerifyFlag False) w0 of
               (w1, None) \<Rightarrow> (w1, Inl AttributeError)
             | (w1, Some c) \<Rightarrow>
                 if \<not> truthy (token c) then (w1, Inl CannotInstantiateClient)
                 else secret_loop (as_list path) [] w1))"

text \<open>
  \<open>_set_environments\<close>. The inner loop writes the secrets of a \<open>VAULT_PATH_\<close> entry
  (lines 101 to 107); \<open>expand\<close> is the whole branch of line 95; \<open>set_plain\<close> is the
  \<open>try\<close> statement of lines 111 to 121, which every key reaches, a \<open>VAULT_PATH_\<close>
  key after its branch.
\<close>

fun write_secrets :: "string \<Rightarrow> pyval \<Rightarrow> dict \<Rightarrow> world \<Rightarrow> unit result" where
  "write_secrets key val [] w = (w, Inr ())"
| "write_secrets key val ((secret, sv) # rest) w =
     (if environ w secret = None then
        (case environ_setitem secret sv w of
           (w1, Inl e) \<Rightarrow> (w1, Inl e)
         | (w1, Inr u) \<Rightarrow> write_secrets key val rest w1)
      else (w, Inl (VaultPathDuplicated key val secret)))"

definition expand :: "handler \<Rightarrow> string \<Rightarrow> pyval \<Rightarrow> world \<Rightarrow> unit result" where
  "expand h key val w =
     (case get_secret h val w of
        (w1, Inl e) \<Rightarrow> (w1, Inl e)
      | (w1, Inr (SecretsOk secrets)) \<Rightarrow> write_secrets key val secrets w1
      | (w1, Inr (SecretsErrors ks)) \<Rightarrow> (w1, Inl (VaultPathCannotRetrieve key val)))"

definition set_plain :: "string \<Rightarrow> pyval \<Rightarrow> world \<Rightarrow> unit result" where
  "set_plain key val w =
     (case environ w key of
        None \<Rightarrow>
          (case environ_setitem key val w of
             (w1, Inl e) \<Rightarrow>
               if e = TypeError then environ_setitem key (PStr (json_dumps w1 val)) w1
               else (w1, Inl e)
           | (w1, Inr u) \<Rightarrow> (w1, Inr u))
      | Some existing \<Rightarrow>
          (print (DuplicatedInConfig key existing val) w, Inl (DuplicatedEnvironment key)))"

definition set_entry :: "handler \<Rightarrow> string \<Rightarrow> pyval \<Rightarrow> world \<Rightarrow> unit result" where
  "set_entry h key val w =
     (case (if prefix ''VAULT_PATH_'' key then expand h key val w else (w, Inr ())) of
        (w1, Inl e) \<Rightarrow> (w1, Inl e)
      | (w1, Inr u) \<Rightarrow> set_plain key val w1)"

fun set_environments :: "handler \<Rightarrow> dict \<Rightarrow> world \<Rightarrow> unit result" where
  "set_environments h [] w = (w, Inr ())"
| "set_environments h ((key, val) # rest) w =
     (case set_entry h key val w of
        (w1, Inl e) \<Rightarrow> (w1, Inl e)
      | (w1, Inr u) \<Rightarrow> set_environments h rest w1)"

text \<open>\<open>s.split("/")\<close>\<close>

fun split_slash :: "string \<Rightarrow> string list" where
  "split_slash [] = [[]]"
| "split_slash (c # cs) =
     (if c = CHR ''/'' then [] # split_slash cs
      else (case split_slash cs of
              [] \<Rightarrow> [[c]]
            | piece # pieces \<Rightarrow> (c # piece) # pieces))"

text \<open>\<open>s.replace(".py", "")\<close>\<close>

fun replace_py :: "string \<Rightarrow> string" where
  "replace_py (a # b # c # cs) =
     (if [a, b, c] = ''.py'' then replace_py cs else a # replace_py (b # c # cs))"
| "replace_py cs = cs"

text \<open>\<open>sys.argv[0].split("/")[-1].replace(".py", "").upper()\<close>\<close>

definition appname :: "world \<Rightarrow> string \<Rightarrow> string" where
  "appname w program = str_upper w (replace_py (last (split_slash program)))"

text \<open>Lines 233 to 237 and 241 to 245: fetch the configuration at \<open>DECONFPATH\<close> and set it.\<close>

definition fetch_config :: "handler \<Rightarrow> world \<Rightarrow> unit result" where
  "fetch_config h w =
     (case environ_getitem ''DECONFPATH'' w of
        Inl e \<Rightarrow> (w, Inl e)
      | Inr deconfpath \<Rightarrow>
          (case get_secret h (PStr deconfpath) w of
             (w1, Inl e) \<Rightarrow> (w1, Inl e)
           | (w1, Inr (SecretsOk config)) \<Rightarrow> set_environments h config w1
           | (w1, Inr (SecretsErrors ks)) \<Rightarrow> (w1, Inl (PathCannotBeRetrieved deconfpath))))"

text \<open>Lines 232 to 247: what \<open>get_config_path\<close> does once \<open>APPNAME\<close> is set.\<close>

definition config_from_environment :: "handler \<Rightarrow> world \<Rightarrow> unit result" where
  "config_from_environment h w1 =
     (if environ w1 ''DECONFPATH'' \<noteq> None then fetch_config h w1
      else
        (case environ w1 ''env'' of
           None \<Rightarrow> (w1, Inl CannotDetermineConfigPaths)
         | Some env \<Rightarrow>
             (case environ_getitem ''APPNAME'' w1 of
                Inl e \<Rightarrow> (w1, Inl e)
              | Inr name \<Rightarrow>
                  (case environ_setitem ''DECONFPATH''
                          (PStr (''dataeng/config/'' @ str_upper w1 env @ ''/'' @ name)) w1 of
                     (w2, Inl e) \<Rightarrow> (w2, Inl e)
                   | (w2, Inr u2) \<Rightarrow> fetch_config h w2))))"

definition get_config_path :: "handler \<Rightarrow> world \<Rightarrow> unit result" where
  "get_config_path h w =
     (case logger_call GetConfigPathDeprecated w of
        (w0, Inl e) \<Rightarrow> (w0, Inl e)
      | (w0, Inr u) \<Rightarrow>
          (case argv w0 of
             [] \<Rightarrow> (w0, Inl IndexError)
           | program # args \<Rightarrow>
               (case environ_setitem ''APPNAME'' (PStr (appname w0 program)) w0 of
                  (w1, Inl e) \<Rightarrow> (w1, Inl e)
                | (w1, Inr u1) \<Rightarrow> config_from_environment h w1)))"

subsection \<open>Dictionaries and logins as the claims speak of them\<close>

text \<open>
  A dictionary has distinct keys. The bundles of a sequence are pairwise disjoint when
  no bundle has a key in common with a later one.
\<close>

definition is_dict :: "dict \<Rightarrow> bool" where
  "is_dict d = distinct (keys d)"

fun pairwise_disjoint :: "dict list \<Rightarrow> bool" where
  "pairwise_disjoint [] = True"
| "pairwise_disjoint (b # bs) = (list_all (\<lambda>c. common_keys b c = []) bs \<and> pairwise_disjoint bs)"

text \<open>
  A login that yields a token, and an exchange that returns none: the field is absent,
  \<open>None\<close> or empty.
\<close>

fun token_ok :: "login_outcome \<Rightarrow> bool" where
  "token_ok (ClientToken t) = truthy t"
| "token_ok outcome = False"

fun token_missing :: "login_outcome \<Rightarrow> bool" where
  "token_missing (ClientToken t) = (\<not> truthy t)"
| "token_missing NoClientToken = True"
| "token_missing (LoginRaises e) = False"

text \<open>
  A pair that \<open>os.environ\<close> accepts, the environment entries that a dictionary of
  strings stands for, and the text that \<open>_set_environments\<close> stores for a value:
  the string itself, or \<open>json.dumps\<close> of anything else.
\<close>

fun storable :: "string \<times> pyval \<Rightarrow> bool" where
  "storable (key, PStr s) =
     (CHR 0x00 \<notin> set key \<and> CHR 0x00 \<notin> set s \<and> CHR ''='' \<notin> set key \<and> key \<noteq> [])"
| "storable (key, val) = False"

definition entries :: "dict \<Rightarrow> string \<rightharpoonup> string" where
  "entries d k = (case map_of d k of Some (PStr s) \<Rightarrow> Some s | _ \<Rightarrow> None)"

definition text_of :: "world \<Rightarrow> pyval \<Rightarrow> string" where
  "text_of w val = (case val of PStr s \<Rightarrow> s | _ \<Rightarrow> json_dumps w val)"

text \<open>
  The nested fetch of a \<open>VAULT_PATH_\<close> entry fails when \<open>get_secret\<close> raises or
  returns \<open>False\<close>.
\<close>

fun fetch_failed :: "exn + secret_result \<Rightarrow> bool" where
  "fetch_failed (Inl e) = True"
| "fetch_failed (Inr r) = (\<not> state r)"

subsection \<open>A deployment for the examples\<close>

text \<open>
  Three paths of a server, a process that holds the two credentials in its environment
  and has a logger, and variants of it: one whose environment already has \<open>DB_USER\<close>,
  one with an empty environment and a handler built from explicit arguments, and one
  whose login returns an empty token. Its names are ASCII, where \<open>str.upper\<close> changes
  the letters a to z only. \<open>shipped\<close> is the same process with the module as the
  source has it, where nothing binds \<open>logger\<close>.
\<close>

definition ascii_upper :: "string \<Rightarrow> string" where
  "ascii_upper s =
     map (\<lambda>c. case map_of (zip ''abcdefghijklmnopqrstuvwxyz'' ''ABCDEFGHIJKLMNOPQRSTUVWXYZ'') c of
                None \<Rightarrow> c
              | Some u \<Rightarrow> u) s"

definition db_bundle :: dict where
  "db_bundle = [(''DB_USER'', PStr ''a''), (''DB_PASS'', PStr ''b'')]"

definition cache_bundle :: dict where
  "cache_bundle = [(''CACHE_HOST'', PStr ''h'')]"

definition legacy_bundle :: dict where
  "legacy_bundle = [(''DB_USER'', PStr ''c'')]"

definition scenario_read :: "pyval \<Rightarrow> exn + dict" where
  "scenario_read p =
     (if p = PStr ''app/db'' then Inr db_bundle
      else if p = PStr ''app/cache'' then Inr cache_bundle
      else if p = PStr ''app/legacy-db'' then Inr legacy_bundle
      else Inl (Hvac ''InvalidPath''))"

definition scenario :: world where
  "scenario =
     \<lparr> environ = [''role_id'' \<mapsto> ''r'', ''secret_id'' \<mapsto> ''s''],
       argv = [''/srv/jobs/etl.py''],
       logger_bound = True,
       handled = None,
       log = [],
       stdout = [],
       requests = [],
       vault_login = (\<lambda>h v. if role_id h = Some ''r'' \<and> secret_id h = Some ''s''
                              then ClientToken (Some ''hvs.token'')
                              else LoginRaises (Hvac ''InvalidRequest'')),
       vault_read = scenario_read,
       json_dumps = (\<lambda>v. ''null''),
       str_upper = ascii_upper \<rparr>"

definition scenario_handler :: handler where
  "scenario_handler = VaultHandler None None None scenario"

definition occupied :: world where
  "occupied = scenario\<lparr>environ := (environ scenario)(''DB_USER'' \<mapsto> ''old'')\<rparr>"

definition bare :: world where
  "bare = scenario\<lparr>environ := Map.empty\<rparr>"

definition explicit_handler :: handler where
  "explicit_handler = VaultHandler (Some ''https://vault.example'') (Some ''r'') (Some ''s'') bare"

definition tokenless :: world where
  "tokenless = scenario\<lparr>vault_login := (\<lambda>h v. ClientToken (Some ''''))\<rparr>"

definition shipped :: world where
  "shipped = scenario\<lparr>logger_bound := False\<rparr>"

lemmas scenario_simps =
  scenario_def scenario_handler_def VaultHandler_def scenario_read_def
  db_bundle_def cache_bundle_def legacy_bundle_def
  occupied_def bare_def explicit_handler_def tokenless_def shipped_def ascii_upper_def

lemmas method_simps =
  check_env_credentials_def read_path_def approle_login_def get_secret_def
  check_hvac_client_login_def logger_call_def print_def common_keys_def keys_def
  update_dict_def environ_setitem_def environ_getitem_def
  set_entry_def expand_def set_plain_def is_dict_def bare_raise_def

section \<open>Properties\<close>

subsection \<open>Dictionaries\<close>

lemma update_dict_Nil [simp]: "update_dict results [] = results"
  by (simp add: update_dict_def)

lemma update_dict_Cons [simp]:
  "update_dict results ((k, v) # data) = update_dict (AList.update k v results) data"
  by (simp add: update_dict_def)

lemma update_fresh: "k \<notin> fst ` set al \<Longrightarrow> AList.update k v al = al @ [(k, v)]"
  by (induction al) auto

lemma update_dict_append:
  "distinct (map fst data) \<Longrightarrow> fst ` set data \<inter> fst ` set results = {} \<Longrightarrow>
   update_dict results data = results @ data"
proof (induction data arbitrary: results)
  case Nil
  then show ?case by simp
next
  case (Cons kv data)
  obtain k v where kv: "kv = (k, v)" by (cases kv)
  from Cons.prems kv have fresh: "k \<notin> fst ` set results" by auto
  have "update_dict results (kv # data) = update_dict (results @ [(k, v)]) data"
    using kv fresh by (simp add: update_fresh)
  also have "\<dots> = (results @ [(k, v)]) @ data"
    using Cons.prems kv by (intro Cons.IH) auto
  finally show ?case using kv by simp
qed

lemma common_keys_Nil_iff:
  "common_keys data results = [] \<longleftrightarrow> fst ` set data \<inter> fst ` set results = {}"
  by (auto simp: common_keys_def keys_def filter_empty_conv)

lemma set_common_keys:
  "set (common_keys data results) = fst ` set data \<inter> fst ` set results"
  by (auto simp: common_keys_def keys_def)

lemma disjoint_bundles_iff:
  "list_all is_dict bs \<and> pairwise_disjoint bs \<longleftrightarrow> distinct (map fst (concat bs))"
proof (induction bs)
  case Nil
  then show ?case by simp
next
  case (Cons b bs)
  have "list_all (\<lambda>c. common_keys b c = []) bs \<longleftrightarrow> fst ` set b \<inter> fst ` set (concat bs) = {}"
    by (auto simp: common_keys_Nil_iff list_all_iff)
  with Cons show ?case by (auto simp: is_dict_def keys_def)
qed

lemma first_conflict:
  "\<not> pairwise_disjoint bs \<Longrightarrow> list_all is_dict bs \<Longrightarrow>
   \<exists>pre b post. bs = pre @ b # post \<and> pairwise_disjoint pre \<and> common_keys b (concat pre) \<noteq> []"
proof (induction bs rule: rev_induct)
  case Nil
  then show ?case by simp
next
  case (snoc b bs)
  show ?case
  proof (cases "pairwise_disjoint bs")
    case True
    have "common_keys b (concat bs) \<noteq> []"
    proof
      assume "common_keys b (concat bs) = []"
      moreover from True snoc.prems(2) have "distinct (map fst (concat bs))"
        using disjoint_bundles_iff [of bs] by simp
      moreover from snoc.prems(2) have "distinct (map fst b)"
        by (simp add: is_dict_def keys_def)
      ultimately have "distinct (map fst (concat (bs @ [b])))"
        by (auto simp: common_keys_Nil_iff)
      with snoc.prems show False using disjoint_bundles_iff [of "bs @ [b]"] by simp
    qed
    with True show ?thesis by (intro exI [of _ bs] exI [of _ b] exI [of _ "[]"]) simp
  next
    case False
    with snoc obtain pre c post where "bs = pre @ c # post" "pairwise_disjoint pre"
      "common_keys c (concat pre) \<noteq> []" by auto
    then show ?thesis by (intro exI [of _ pre] exI [of _ c] exI [of _ "post @ [b]"]) simp
  qed
qed

lemma dom_entries:
  assumes "list_all storable d"
  shows "dom (entries d) = set (keys d)"
proof
  show "dom (entries d) \<subseteq> set (keys d)"
    by (force simp: entries_def keys_def split: option.splits dest: map_of_SomeD)
next
  show "set (keys d) \<subseteq> dom (entries d)"
  proof
    fix k
    assume "k \<in> set (keys d)"
    then obtain v where v: "map_of d k = Some v"
      by (auto simp: keys_def) (metis map_of_eq_None_iff not_Some_eq fst_conv image_eqI)
    then have "(k, v) \<in> set d" by (rule map_of_SomeD)
    with assms have "storable (k, v)" by (simp add: list_all_iff)
    then obtain s where "v = PStr s" by (cases v) auto
    with v show "k \<in> dom (entries d)" by (simp add: entries_def domIff)
  qed
qed

subsection \<open>The environment\<close>

lemma check_env_credentials_frame [simp]:
  "check_env_credentials (w\<lparr>log := l\<rparr>) = check_env_credentials w"
  "check_env_credentials (w\<lparr>requests := q\<rparr>) = check_env_credentials w"
  "check_env_credentials (w\<lparr>stdout := out\<rparr>) = check_env_credentials w"
  by (simp_all add: check_env_credentials_def)

lemma environ_setitem_cases:
  "environ_setitem key val w = (w', r) \<Longrightarrow>
   (\<exists>e. r = Inl e \<and> w' = w) \<or>
   (\<exists>s. r = Inr () \<and> val = PStr s \<and> storable (key, val) \<and> w' = w\<lparr>environ := (environ w)(key \<mapsto> s)\<rparr>)"
  by (cases val) (auto simp: environ_setitem_def split: if_splits)

lemma environ_setitem_json_dumps:
  "environ_setitem key val w = (w', r) \<Longrightarrow> json_dumps w' = json_dumps w"
  by (drule environ_setitem_cases) auto

lemma environ_write_storable:
  "list_all storable d \<Longrightarrow> \<exists>w'. environ_write d w = (w', Inr ())"
proof (induction d arbitrary: w)
  case Nil
  then show ?case by simp
next
  case (Cons kv d)
  obtain k v where kv: "kv = (k, v)" by (cases kv)
  with Cons.prems obtain s where s: "v = PStr s" by (cases v) auto
  with Cons.prems kv have "environ_setitem k v w = (w\<lparr>environ := (environ w)(k \<mapsto> s)\<rparr>, Inr ())"
    by (simp add: environ_setitem_def)
  with Cons kv show ?case by simp
qed

lemma environ_write_environ:
  "distinct (map fst d) \<Longrightarrow> environ_write d w = (w', Inr ()) \<Longrightarrow>
   environ w' = environ w ++ entries d"
proof (induction d arbitrary: w)
  case Nil
  then show ?case by (simp add: entries_def map_add_def)
next
  case (Cons kv d)
  obtain k v where kv: "kv = (k, v)" by (cases kv)
  obtain w1 r where step: "environ_setitem k v w = (w1, r)" by (cases "environ_setitem k v w")
  with Cons.prems(2) kv have r: "r = Inr ()" and rest: "environ_write d w1 = (w', Inr ())"
    by (auto split: sum.splits)
  from environ_setitem_cases [OF step] r obtain s
    where s: "v = PStr s" "w1 = w\<lparr>environ := (environ w)(k \<mapsto> s)\<rparr>" by auto
  from Cons.prems(1) kv have fresh: "map_of d k = None" and dist: "distinct (map fst d)"
    by (auto simp: map_of_eq_None_iff)
  from Cons.IH [OF dist rest] have "environ w' = environ w1 ++ entries d" .
  with s fresh kv show ?case
    by (auto simp: entries_def map_add_def fun_eq_iff split: option.splits pyval.splits)
qed

subsection \<open>Logins and the two loops over the paths\<close>

lemma approle_login_ok:
  "token_ok (vault_login w h v) \<Longrightarrow>
   \<exists>c. approle_login h v w = (w\<lparr>requests := requests w @ [Login]\<rparr>, Inr (Some c)) \<and> truthy (token c)"
  by (cases "vault_login w h v") (auto simp: approle_login_def)

lemma check_hvac_client_login_ok:
  "token_ok (vault_login w h v) \<Longrightarrow>
   \<exists>c. check_hvac_client_login h v w = (w\<lparr>requests := requests w @ [Login]\<rparr>, Some c) \<and> truthy (token c)"
  by (cases "vault_login w h v") (auto simp: check_hvac_client_login_def)

lemma read_loop_disjoint:
  "map (vault_read w) ps = map Inr bs \<Longrightarrow> distinct (map fst (acc @ concat bs)) \<Longrightarrow>
   read_loop ps acc w = (w\<lparr>requests := requests w @ map Read ps\<rparr>, Inr (acc @ concat bs))"
proof (induction ps arbitrary: bs acc w)
  case Nil
  then show ?case by simp
next
  case (Cons p ps)
  then obtain b bs' where bs: "bs = b # bs'" by (cases bs) auto
  let ?w1 = "w\<lparr>requests := requests w @ [Read p]\<rparr>"
  from Cons.prems bs have rd: "vault_read w p = Inr b" and rest: "map (vault_read ?w1) ps = map Inr bs'"
    by auto
  from Cons.prems(2) bs have fresh: "common_keys b acc = []"
    by (auto simp: common_keys_Nil_iff)
  from Cons.prems(2) bs have upd: "update_dict acc b = acc @ b"
    by (intro update_dict_append) auto
  from Cons.prems(2) bs have dist: "distinct (map fst ((acc @ b) @ concat bs'))" by simp
  show ?case
    using Cons.IH [OF rest dist] rd fresh upd bs by simp
qed

lemma secret_loop_disjoint:
  "map (vault_read w) ps = map Inr bs \<Longrightarrow> distinct (map fst (acc @ concat bs)) \<Longrightarrow>
   secret_loop ps acc w =
     (w\<lparr>requests := requests w @ map Read ps\<rparr>, Inr (SecretsOk (acc @ concat bs)))"
proof (induction ps arbitrary: bs acc w)
  case Nil
  then show ?case by simp
next
  case (Cons p ps)
  then obtain b bs' where bs: "bs = b # bs'" by (cases bs) auto
  let ?w1 = "w\<lparr>requests := requests w @ [Read p]\<rparr>"
  from Cons.prems bs have rd: "vault_read w p = Inr b" and rest: "map (vault_read ?w1) ps = map Inr bs'"
    by auto
  from Cons.prems(2) bs have fresh: "common_keys b acc = []"
    by (auto simp: common_keys_Nil_iff)
  from Cons.prems(2) bs have upd: "update_dict acc b = acc @ b"
    by (intro update_dict_append) auto
  from Cons.prems(2) bs have dist: "distinct (map fst ((acc @ b) @ concat bs'))" by simp
  show ?case
    using Cons.IH [OF rest dist] rd fresh upd bs by simp
qed

lemma read_loop_append:
  "read_loop (ps @ qs) acc w =
     (case read_loop ps acc w of (w1, Inl e) \<Rightarrow> (w1, Inl e) | (w1, Inr acc1) \<Rightarrow> read_loop qs acc1 w1)"
  by (induction ps acc w rule: read_loop.induct)
     (auto simp: Let_def split: sum.splits prod.splits)

lemma secret_loop_append:
  "secret_loop (ps @ qs) acc w =
     (case secret_loop ps acc w of
        (w1, Inl e) \<Rightarrow> (w1, Inl e)
      | (w1, Inr (SecretsOk acc1)) \<Rightarrow> secret_loop qs acc1 w1
      | (w1, Inr (SecretsErrors ks)) \<Rightarrow> (w1, Inr (SecretsErrors ks)))"
  by (induction ps acc w rule: secret_loop.induct)
     (auto simp: Let_def split: sum.splits prod.splits)

lemma read_loop_conflict:
  assumes "map (vault_read w) ps = map Inr pre"
    and "distinct (map fst (concat pre))"
    and "vault_read w p = Inr b"
    and "common_keys b (concat pre) \<noteq> []"
  shows "read_loop (ps @ p # qs) [] w =
           (case logger_call (DuplicateKeysFetched (common_keys b (concat pre)))
                   (w\<lparr>requests := requests w @ map Read (ps @ [p])\<rparr>) of
              (w2, Inl e) \<Rightarrow> (w2, Inl e)
            | (w2, Inr u) \<Rightarrow> (w2, Inl (bare_raise w2)))"
  using read_loop_disjoint [OF assms(1), of "[]"] assms(2-4)
  by (simp add: read_loop_append)

lemma secret_loop_conflict:
  assumes "map (vault_read w) ps = map Inr pre"
    and "distinct (map fst (concat pre))"
    and "vault_read w p = Inr b"
    and "common_keys b (concat pre) \<noteq> []"
  shows "secret_loop (ps @ p # qs) [] w =
           (w\<lparr>requests := requests w @ map Read (ps @ [p])\<rparr>,
            Inr (SecretsErrors (common_keys b (concat pre))))"
  using secret_loop_disjoint [OF assms(1), of "[]"] assms(2-4)
  by (simp add: secret_loop_append)

lemma reads_split:
  assumes "map (vault_read w) paths = map Inr (pre @ b # post)"
  shows "\<exists>ps p qs. paths = ps @ p # qs \<and> map (vault_read w) ps = map Inr pre \<and> vault_read w p = Inr b"
proof -
  let ?n = "length pre"
  from assms have len: "length paths = length (pre @ b # post)"
    by (metis length_map)
  then have n: "?n < length paths" by simp
  have split: "paths = take ?n paths @ paths ! ?n # drop (Suc ?n) paths"
    using n by (rule id_take_nth_drop)
  from assms have "take ?n (map (vault_read w) paths) = take ?n (map Inr (pre @ b # post))" by simp
  then have a: "map (vault_read w) (take ?n paths) = map Inr pre" by (simp add: take_map)
  from assms have "map (vault_read w) paths ! ?n = map Inr (pre @ b # post) ! ?n" by simp
  with n have b: "vault_read w (paths ! ?n) = Inr b" by (simp add: nth_append)
  from split a b show ?thesis by blast
qed

lemma reads_permuted:
  assumes "map (vault_read w) ps = map Inr bs" and "mset ps' = mset ps"
  shows "\<exists>bs'. map (vault_read w) ps' = map Inr bs' \<and> mset bs' = mset bs"
proof -
  let ?g = "\<lambda>p. case vault_read w p of Inr d \<Rightarrow> d | Inl e \<Rightarrow> []"
  from assms(1) have all: "\<forall>p\<in>set ps. \<exists>d. vault_read w p = Inr d"
    by (induction ps arbitrary: bs) auto
  from assms(1) have bs: "bs = map ?g ps"
    by (induction ps arbitrary: bs) auto
  from assms(2) have "set ps' = set ps" by (rule mset_eq_setD)
  with all have "map (vault_read w) ps' = map Inr (map ?g ps')" by auto
  moreover from assms(2) bs have "mset (map ?g ps') = mset bs"
    by (metis mset_map)
  ultimately show ?thesis by blast
qed

lemma concat_permuted:
  "mset bs' = mset bs \<Longrightarrow> mset (concat bs') = mset (concat bs)"
  by (metis mset_concat mset_map sum_mset_sum_list)

lemma secret_loop_frame:
  "secret_loop ps acc w = (w', r) \<Longrightarrow> environ w' = environ w \<and> json_dumps w' = json_dumps w"
proof (induction ps arbitrary: acc w)
  case Nil
  then show ?case by auto
next
  case (Cons p ps)
  let ?w1 = "w\<lparr>requests := requests w @ [Read p]\<rparr>"
  show ?case
  proof (cases "vault_read w p")
    case (Inl e)
    with Cons.prems show ?thesis by auto
  next
    case (Inr data)
    show ?thesis
    proof (cases "common_keys data acc = []")
      case True
      with Cons.prems Inr have "secret_loop ps (update_dict acc data) ?w1 = (w', r)" by simp
      from Cons.IH [OF this] show ?thesis by simp
    next
      case False
      with Cons.prems Inr show ?thesis by auto
    qed
  qed
qed

subsection \<open>read_path and get_secret\<close>

lemma read_path_unfold:
  assumes "check_env_credentials w" and "token_ok (vault_login w h v)"
  shows "read_path h path to_environ v w =
           (case read_loop (as_list path) [] (w\<lparr>requests := requests w @ [Login]\<rparr>) of
              (w2, Inl e) \<Rightarrow> (w2, Inl e)
            | (w2, Inr results) \<Rightarrow>
                if to_environ then
                  (case environ_write results w2 of
                     (w3, Inl e) \<Rightarrow> (w3, Inl e)
                   | (w3, Inr u) \<Rightarrow> (w3, Inr results))
                else (w2, Inr results))"
proof -
  from approle_login_ok [OF assms(2)] obtain c
    where "approle_login h v w = (w\<lparr>requests := requests w @ [Login]\<rparr>, Inr (Some c))"
      "truthy (token c)" by blast
  with assms(1) show ?thesis by (simp add: read_path_def)
qed

lemma get_secret_unfold:
  assumes "logger_bound w" and "check_env_credentials w"
    and "token_ok (vault_login w h (VerifyFlag False))"
  shows "get_secret h path w =
           secret_loop (as_list path) [] (w\<lparr>log := log w @ [GetSecretDeprecated],
                                            requests := requests w @ [Login]\<rparr>)"
proof -
  let ?w0 = "w\<lparr>log := log w @ [GetSecretDeprecated]\<rparr>"
  from assms(3) have "token_ok (vault_login ?w0 h (VerifyFlag False))" by simp
  from check_hvac_client_login_ok [OF this] obtain c
    where "check_hvac_client_login h (VerifyFlag False) ?w0 = (?w0\<lparr>requests := requests ?w0 @ [Login]\<rparr>, Some c)"
      "truthy (token c)" by blast
  with assms(1,2) show ?thesis
    by (simp add: get_secret_def logger_call_def check_env_credentials_def)
qed

lemma get_secret_frame:
  assumes "get_secret h path w = (w', r)"
  shows "environ w' = environ w \<and> json_dumps w' = json_dumps w"
proof (cases "logger_bound w \<and> check_env_credentials w")
  case False
  with assms show ?thesis
    by (auto simp: get_secret_def logger_call_def check_env_credentials_def split: if_splits)
next
  case True
  let ?w0 = "w\<lparr>log := log w @ [GetSecretDeprecated]\<rparr>"
  obtain w1 c where login: "check_hvac_client_login h (VerifyFlag False) ?w0 = (w1, c)"
    by (cases "check_hvac_client_login h (VerifyFlag False) ?w0")
  then have w1: "environ w1 = environ w \<and> json_dumps w1 = json_dumps w"
    by (auto simp: check_hvac_client_login_def print_def Let_def split: login_outcome.splits)
  show ?thesis
  proof (cases "\<exists>c'. c = Some c' \<and> truthy (token c')")
    case False
    with assms True login w1 show ?thesis
      by (cases c) (auto simp: get_secret_def logger_call_def check_env_credentials_def)
  next
    case True
    then obtain c' where "c = Some c'" "truthy (token c')" by blast
    with assms \<open>logger_bound w \<and> check_env_credentials w\<close> login
    have "secret_loop (as_list path) [] w1 = (w', r)"
      by (simp add: get_secret_def logger_call_def)
    from secret_loop_frame [OF this] w1 show ?thesis by simp
  qed
qed

lemma read_path_disjoint:
  assumes creds: "check_env_credentials w"
    and login: "token_ok (vault_login w h v)"
    and reads: "map (vault_read w) (as_list path) = map Inr bundles"
    and dist: "distinct (map fst (concat bundles))"
    and env: "to_environ \<Longrightarrow> list_all storable (concat bundles)"
  shows "\<exists>w'. read_path h path to_environ v w = (w', Inr (concat bundles))
           \<and> environ w' = (if to_environ then environ w ++ entries (concat bundles) else environ w)"
proof -
  let ?w1 = "w\<lparr>requests := requests w @ [Login]\<rparr>"
  from approle_login_ok [OF login] obtain c
    where c: "approle_login h v w = (?w1, Inr (Some c))" "truthy (token c)" by blast
  from reads have "map (vault_read ?w1) (as_list path) = map Inr bundles" by simp
  from read_loop_disjoint [OF this, of "[]"] dist
  obtain w2 where loop: "read_loop (as_list path) [] ?w1 = (w2, Inr (concat bundles))"
    and env2: "environ w2 = environ w" by auto
  show ?thesis
  proof (cases to_environ)
    case True
    with env environ_write_storable obtain w3
      where w3: "environ_write (concat bundles) w2 = (w3, Inr ())" by blast
    from environ_write_environ [OF dist w3] env2
    have "environ w3 = environ w ++ entries (concat bundles)" by simp
    with True creds c loop w3 show ?thesis by (simp add: read_path_def)
  next
    case False
    with creds c loop env2 show ?thesis by (simp add: read_path_def)
  qed
qed

text \<open>
  Both methods stop before the login when the environment of the process lacks one of
  the two credentials, whatever the handler was built with.
\<close>

lemma read_path_without_environment_credentials:
  assumes "\<not> check_env_credentials w"
  shows "\<exists>w'. read_path h path to_environ v w =
                (w', Inl (if logger_bound w then bare_raise w else NameError))
           \<and> requests w' = requests w \<and> environ w' = environ w"
  using assms by (simp add: read_path_def logger_call_def bare_raise_def)

lemma get_secret_without_environment_credentials:
  assumes "\<not> check_env_credentials w"
  shows "\<exists>w'. get_secret h path w =
                (w', Inl (if logger_bound w then CredentialsNotPresent else NameError))
           \<and> requests w' = requests w \<and> environ w' = environ w"
  using assms by (simp add: get_secret_def logger_call_def)

subsection \<open>_set_environments\<close>

text \<open>
  A key that the environment has keeps its value through every step of
  \<open>_set_environments\<close>, whether the step succeeds or raises; a plain entry whose key
  is present raises and changes nothing.
\<close>

lemma write_secrets_done:
  "write_secrets key val d w = (w', Inr ()) \<Longrightarrow>
   distinct (map fst d) \<and> list_all storable d \<and> fst ` set d \<inter> dom (environ w) = {}
   \<and> environ w' = environ w ++ entries d \<and> json_dumps w' = json_dumps w"
proof (induction d arbitrary: w)
  case Nil
  then show ?case by (simp add: entries_def map_add_def)
next
  case (Cons kv d)
  obtain k v where kv: "kv = (k, v)" by (cases kv)
  from Cons.prems kv have new: "environ w k = None" by (auto split: if_splits)
  obtain w1 r where step: "environ_setitem k v w = (w1, r)" by (cases "environ_setitem k v w")
  with Cons.prems kv new have r: "r = Inr ()" and rest: "write_secrets key val d w1 = (w', Inr ())"
    by (auto split: sum.splits)
  from environ_setitem_cases [OF step] r obtain s
    where s: "v = PStr s" "storable (k, v)" "w1 = w\<lparr>environ := (environ w)(k \<mapsto> s)\<rparr>" by auto
  from Cons.IH [OF rest]
  have ih: "distinct (map fst d)" "list_all storable d" "fst ` set d \<inter> dom (environ w1) = {}"
    "environ w' = environ w1 ++ entries d" "json_dumps w' = json_dumps w1" by simp_all
  from ih(3) s(3) have fresh: "k \<notin> fst ` set d" and disj: "fst ` set d \<inter> dom (environ w) = {}"
    by auto
  from fresh have "map_of d k = None" by (simp add: map_of_eq_None_iff)
  with ih(4) s have "environ w' = environ w ++ entries (kv # d)"
    by (auto simp: kv entries_def map_add_def fun_eq_iff split: option.splits pyval.splits)
  with ih s kv fresh disj new show ?case by (auto simp: domIff)
qed

lemma write_secrets_keeps:
  "environ w k = Some x \<Longrightarrow> write_secrets key val d w = (w', r) \<Longrightarrow> environ w' k = Some x"
proof (induction d arbitrary: w)
  case Nil
  then show ?case by simp
next
  case (Cons kv d)
  obtain k' v where kv: "kv = (k', v)" by (cases kv)
  show ?case
  proof (cases "environ w k' = None")
    case False
    with Cons.prems kv show ?thesis by auto
  next
    case True
    obtain w1 r1 where step: "environ_setitem k' v w = (w1, r1)" by (cases "environ_setitem k' v w")
    from environ_setitem_cases [OF step] True Cons.prems(1) have keep: "environ w1 k = Some x"
      by auto
    show ?thesis
    proof (cases r1)
      case (Inl e)
      with Cons.prems(2) kv True step keep show ?thesis by auto
    next
      case (Inr u)
      with Cons.prems(2) kv True step have "write_secrets key val d w1 = (w', r)" by simp
      from Cons.IH [OF keep this] show ?thesis .
    qed
  qed
qed

lemma write_secrets_json_dumps:
  "write_secrets key val d w = (w', r) \<Longrightarrow> json_dumps w' = json_dumps w"
proof (induction d arbitrary: w)
  case Nil
  then show ?case by simp
next
  case (Cons kv d)
  obtain k v where kv: "kv = (k, v)" by (cases kv)
  show ?case
  proof (cases "environ w k = None")
    case False
    with Cons.prems kv show ?thesis by auto
  next
    case True
    obtain w1 r1 where step: "environ_setitem k v w = (w1, r1)" by (cases "environ_setitem k v w")
    from environ_setitem_json_dumps [OF step] have j: "json_dumps w1 = json_dumps w" .
    show ?thesis
    proof (cases r1)
      case (Inl e)
      with Cons.prems kv True step j show ?thesis by auto
    next
      case (Inr u)
      with Cons.prems kv True step have "write_secrets key val d w1 = (w', r)" by simp
      from Cons.IH [OF this] j show ?thesis by simp
    qed
  qed
qed

lemma set_plain_done:
  "set_plain key val w = (w', Inr ()) \<Longrightarrow>
   environ w key = None \<and> environ w' = (environ w)(key \<mapsto> text_of w val)"
proof -
  assume a: "set_plain key val w = (w', Inr ())"
  then have new: "environ w key = None" by (cases "environ w key") (simp_all add: set_plain_def)
  obtain w1 r1 where step: "environ_setitem key val w = (w1, r1)" by (cases "environ_setitem key val w")
  show ?thesis
  proof (cases "\<exists>s. val = PStr s")
    case True
    then obtain s where s: "val = PStr s" by blast
    with a new show ?thesis
      by (auto simp: set_plain_def environ_setitem_def text_of_def split: if_splits)
  next
    case False
    then have te: "environ_setitem key val w = (w, Inl TypeError)"
      by (cases val) (simp_all add: environ_setitem_def)
    from False have dump: "text_of w val = json_dumps w val"
      by (cases val) (simp_all add: text_of_def)
    from a new te dump show ?thesis
      by (auto simp: set_plain_def environ_setitem_def split: if_splits)
  qed
qed

lemma set_plain_keeps:
  "environ w k = Some x \<Longrightarrow> set_plain key val w = (w', r) \<Longrightarrow> environ w' k = Some x"
proof -
  assume k: "environ w k = Some x" and a: "set_plain key val w = (w', r)"
  show ?thesis
  proof (cases "environ w key")
    case (Some existing)
    with a k show ?thesis by (auto simp: set_plain_def print_def)
  next
    case None
    with k have ne: "key \<noteq> k" by auto
    obtain w1 r1 where step: "environ_setitem key val w = (w1, r1)" by (cases "environ_setitem key val w")
    from environ_setitem_cases [OF step] k ne have k1: "environ w1 k = Some x" by auto
    show ?thesis
    proof (cases "r1 = Inl TypeError")
      case True
      with a None step have second: "environ_setitem key (PStr (json_dumps w1 val)) w1 = (w', r)"
        by (simp add: set_plain_def)
      from environ_setitem_cases [OF second] k1 ne show ?thesis by auto
    next
      case False
      with a None step have "w' = w1" by (cases r1) (auto simp: set_plain_def)
      with k1 show ?thesis by simp
    qed
  qed
qed

lemma set_plain_duplicate:
  "environ w key = Some existing \<Longrightarrow>
   \<exists>w'. set_plain key val w = (w', Inl (DuplicatedEnvironment key)) \<and> environ w' = environ w"
  by (simp add: set_plain_def print_def)

lemma set_plain_json_dumps:
  assumes "set_plain key val w = (w', r)"
  shows "json_dumps w' = json_dumps w"
proof (cases "environ w key")
  case (Some existing)
  with assms show ?thesis by (auto simp: set_plain_def print_def)
next
  case None
  obtain w1 r1 where step: "environ_setitem key val w = (w1, r1)" by (cases "environ_setitem key val w")
  from environ_setitem_json_dumps [OF step] have j: "json_dumps w1 = json_dumps w" .
  show ?thesis
  proof (cases "r1 = Inl TypeError")
    case True
    with assms None step have "environ_setitem key (PStr (json_dumps w1 val)) w1 = (w', r)"
      by (simp add: set_plain_def)
    from environ_setitem_json_dumps [OF this] j show ?thesis by simp
  next
    case False
    with assms None step have "w' = w1" by (cases r1) (auto simp: set_plain_def)
    with j show ?thesis by simp
  qed
qed

lemma expand_keeps:
  assumes "environ w k = Some x" and "expand h key val w = (w', r)"
  shows "environ w' k = Some x"
proof -
  obtain w1 r1 where gs: "get_secret h val w = (w1, r1)" by (cases "get_secret h val w")
  from get_secret_frame [OF gs] assms(1) have keep: "environ w1 k = Some x" by simp
  show ?thesis
  proof (cases r1)
    case (Inl e)
    with assms(2) gs keep show ?thesis by (simp add: expand_def)
  next
    case (Inr s)
    show ?thesis
    proof (cases s)
      case (SecretsOk secrets)
      with assms(2) gs Inr have "write_secrets key val secrets w1 = (w', r)" by (simp add: expand_def)
      from write_secrets_keeps [OF keep this] show ?thesis .
    next
      case (SecretsErrors ks)
      with assms(2) gs Inr keep show ?thesis by (simp add: expand_def)
    qed
  qed
qed

lemma expand_json_dumps:
  assumes "expand h key val w = (w', r)"
  shows "json_dumps w' = json_dumps w"
proof -
  obtain w1 r1 where gs: "get_secret h val w = (w1, r1)" by (cases "get_secret h val w")
  from get_secret_frame [OF gs] have j: "json_dumps w1 = json_dumps w" by simp
  show ?thesis
  proof (cases r1)
    case (Inl e)
    with assms gs j show ?thesis by (simp add: expand_def)
  next
    case (Inr s)
    show ?thesis
    proof (cases s)
      case (SecretsOk secrets)
      with assms gs Inr have "write_secrets key val secrets w1 = (w', r)" by (simp add: expand_def)
      from write_secrets_json_dumps [OF this] j show ?thesis by simp
    next
      case (SecretsErrors ks)
      with assms gs Inr j show ?thesis by (simp add: expand_def)
    qed
  qed
qed

lemma set_entry_keeps:
  assumes "environ w k = Some x" and "set_entry h key val w = (w', r)"
  shows "environ w' k = Some x"
proof -
  let ?first = "if prefix ''VAULT_PATH_'' key then expand h key val w else (w, Inr ())"
  obtain w1 r1 where first: "?first = (w1, r1)" by (cases ?first)
  with assms(1) have keep: "environ w1 k = Some x"
    by (auto split: if_splits dest: expand_keeps)
  show ?thesis
  proof (cases r1)
    case (Inl e)
    with assms(2) first keep show ?thesis by (simp add: set_entry_def)
  next
    case (Inr u)
    with assms(2) first have "set_plain key val w1 = (w', r)" by (simp add: set_entry_def)
    from set_plain_keeps [OF keep this] show ?thesis .
  qed
qed

lemma set_entry_json_dumps:
  assumes "set_entry h key val w = (w', r)"
  shows "json_dumps w' = json_dumps w"
proof -
  let ?first = "if prefix ''VAULT_PATH_'' key then expand h key val w else (w, Inr ())"
  obtain w1 r1 where first: "?first = (w1, r1)" by (cases ?first)
  then have j: "json_dumps w1 = json_dumps w"
    by (auto split: if_splits dest: expand_json_dumps)
  show ?thesis
  proof (cases r1)
    case (Inl e)
    with assms first j show ?thesis by (simp add: set_entry_def)
  next
    case (Inr u)
    with assms first have "set_plain key val w1 = (w', r)" by (simp add: set_entry_def)
    from set_plain_json_dumps [OF this] j show ?thesis by simp
  qed
qed

lemma set_environments_keeps:
  "environ w k = Some x \<Longrightarrow> set_environments h cfg w = (w', r) \<Longrightarrow> environ w' k = Some x"
proof (induction cfg arbitrary: w)
  case Nil
  then show ?case by simp
next
  case (Cons kv cfg)
  obtain key val where kv: "kv = (key, val)" by (cases kv)
  obtain w1 r1 where step: "set_entry h key val w = (w1, r1)" by (cases "set_entry h key val w")
  from set_entry_keeps [OF Cons.prems(1) step] have keep: "environ w1 k = Some x" .
  show ?case
  proof (cases r1)
    case (Inl e)
    with Cons.prems(2) kv step keep show ?thesis by auto
  next
    case (Inr u)
    with Cons.prems(2) kv step have "set_environments h cfg w1 = (w', r)" by simp
    from Cons.IH [OF keep this] show ?thesis .
  qed
qed

lemma set_environments_json_dumps:
  "set_environments h cfg w = (w', r) \<Longrightarrow> json_dumps w' = json_dumps w"
proof (induction cfg arbitrary: w)
  case Nil
  then show ?case by simp
next
  case (Cons kv cfg)
  obtain key val where kv: "kv = (key, val)" by (cases kv)
  obtain w1 r1 where step: "set_entry h key val w = (w1, r1)" by (cases "set_entry h key val w")
  from set_entry_json_dumps [OF step] have j: "json_dumps w1 = json_dumps w" .
  show ?case
  proof (cases r1)
    case (Inl e)
    with Cons.prems kv step j show ?thesis by auto
  next
    case (Inr u)
    with Cons.prems kv step have "set_environments h cfg w1 = (w', r)" by simp
    from Cons.IH [OF this] j show ?thesis by simp
  qed
qed

lemma set_environments_append:
  "set_environments h (pre @ post) w =
     (case set_environments h pre w of
        (w1, Inl e) \<Rightarrow> (w1, Inl e)
      | (w1, Inr u) \<Rightarrow> set_environments h post w1)"
proof (induction pre arbitrary: w)
  case Nil
  then show ?case by simp
next
  case (Cons kv pre)
  obtain key val where kv: "kv = (key, val)" by (cases kv)
  obtain w1 r1 where step: "set_entry h key val w = (w1, r1)" by (cases "set_entry h key val w")
  show ?case
  proof (cases r1)
    case (Inl e)
    with kv step show ?thesis by simp
  next
    case (Inr u)
    with kv step Cons.IH [of w1] show ?thesis by simp
  qed
qed

lemma fetch_config_keeps:
  assumes "environ w k = Some x" and "fetch_config h w = (w', r)"
  shows "environ w' k = Some x"
proof (cases "environ w ''DECONFPATH''")
  case None
  with assms show ?thesis by (simp add: fetch_config_def environ_getitem_def)
next
  case (Some deconfpath)
  obtain w1 r1 where gs: "get_secret h (PStr deconfpath) w = (w1, r1)"
    by (cases "get_secret h (PStr deconfpath) w")
  from get_secret_frame [OF gs] assms(1) have keep: "environ w1 k = Some x" by simp
  show ?thesis
  proof (cases r1)
    case (Inl e)
    with assms(2) Some gs keep show ?thesis by (simp add: fetch_config_def environ_getitem_def)
  next
    case (Inr s)
    show ?thesis
    proof (cases s)
      case (SecretsOk config)
      with assms(2) Some gs Inr have "set_environments h config w1 = (w', r)"
        by (simp add: fetch_config_def environ_getitem_def)
      from set_environments_keeps [OF keep this] show ?thesis .
    next
      case (SecretsErrors ks)
      with assms(2) Some gs Inr keep show ?thesis by (simp add: fetch_config_def environ_getitem_def)
    qed
  qed
qed

subsection \<open>Without a logger, and with one\<close>

text \<open>
  In the module as the source has it nothing binds \<open>logger\<close>. \<open>get_secret\<close> and
  \<open>get_config_path\<close> then raise \<open>NameError\<close> in their first statement, whatever
  their arguments, and leave the process as it was.
\<close>

lemma get_secret_without_logger:
  "\<not> logger_bound w \<Longrightarrow> get_secret h path w = (w, Inl NameError)"
  by (simp add: get_secret_def logger_call_def)

lemma get_config_path_without_logger:
  "\<not> logger_bound w \<Longrightarrow> get_config_path h w = (w, Inl NameError)"
  by (simp add: get_config_path_def logger_call_def)

text \<open>
  With a logger bound: on bundles that share a key both loops stop at the first bundle
  that has a key in common with the bundles before it. \<open>read_path\<close> gives these keys
  to the logger and goes on to its bare \<open>raise\<close>; \<open>get_secret\<close> returns \<open>False\<close>
  with them.
\<close>

lemma merge_with_logger_stops_at_first_conflict:
  assumes "check_env_credentials w"
    and "logger_bound w"
    and "token_ok (vault_login w h v)"
    and "token_ok (vault_login w h (VerifyFlag False))"
    and "map (vault_read w) (as_list path) = map Inr bundles"
    and "list_all is_dict bundles"
    and "\<not> pairwise_disjoint bundles"
  shows "\<exists>pre b post reported w1 w2.
           bundles = pre @ b # post \<and> pairwise_disjoint pre
           \<and> reported \<noteq> [] \<and> set reported = set (keys b) \<inter> set (keys (concat pre))
           \<and> read_path h path to_environ v w = (w1, Inl (bare_raise w))
           \<and> log w1 = log w @ [DuplicateKeysFetched reported] \<and> environ w1 = environ w
           \<and> get_secret h path w = (w2, Inr (SecretsErrors reported)) \<and> environ w2 = environ w"
proof -
  from first_conflict [OF assms(7,6)] obtain pre b post
    where bs: "bundles = pre @ b # post" and pre: "pairwise_disjoint pre"
      and conflict: "common_keys b (concat pre) \<noteq> []" by blast
  from assms(6) bs have "list_all is_dict pre" by simp
  with pre have dist: "distinct (map fst (concat pre))" using disjoint_bundles_iff by blast
  from reads_split assms(5) bs obtain ps p qs
    where paths: "as_list path = ps @ p # qs" and reads: "map (vault_read w) ps = map Inr pre"
      and read: "vault_read w p = Inr b" by blast
  let ?ks = "common_keys b (concat pre)"
  let ?wl = "w\<lparr>requests := requests w @ [Login]\<rparr>"
  let ?wg = "w\<lparr>log := log w @ [GetSecretDeprecated], requests := requests w @ [Login]\<rparr>"
  from reads read have "map (vault_read ?wl) ps = map Inr pre" "vault_read ?wl p = Inr b" by simp_all
  from read_loop_conflict [OF this(1) dist this(2) conflict, of qs] assms(2)
  have "\<exists>w1. read_loop (as_list path) [] ?wl = (w1, Inl (bare_raise w))
          \<and> log w1 = log w @ [DuplicateKeysFetched ?ks] \<and> environ w1 = environ w"
    by (simp add: paths logger_call_def bare_raise_def)
  then obtain w1 where rp: "read_path h path to_environ v w = (w1, Inl (bare_raise w))"
    and l1: "log w1 = log w @ [DuplicateKeysFetched ?ks]" and e1: "environ w1 = environ w"
    using read_path_unfold [OF assms(1,3)] by auto
  from reads read have "map (vault_read ?wg) ps = map Inr pre" "vault_read ?wg p = Inr b" by simp_all
  from secret_loop_conflict [OF this(1) dist this(2) conflict, of qs]
  have "\<exists>w2. secret_loop (as_list path) [] ?wg = (w2, Inr (SecretsErrors ?ks)) \<and> environ w2 = environ w"
    by (simp add: paths)
  then obtain w2 where gs: "get_secret h path w = (w2, Inr (SecretsErrors ?ks))"
    and e2: "environ w2 = environ w"
    using get_secret_unfold [OF assms(2,1,4)] by auto
  have "set ?ks = set (keys b) \<inter> set (keys (concat pre))"
    by (simp add: set_common_keys keys_def)
  with bs pre conflict rp l1 e1 gs e2 show ?thesis by blast
qed

lemma get_secret_with_logger_returns_false:
  assumes "logger_bound w"
    and "check_env_credentials w"
    and "token_ok (vault_login w h (VerifyFlag False))"
    and "map (vault_read w) (as_list path) = map Inr bundles"
    and "list_all is_dict bundles"
    and "\<not> pairwise_disjoint bundles"
  shows "\<exists>w' r ks. get_secret h path w = (w', Inr r) \<and> state r = False
           \<and> r = SecretsErrors ks \<and> ks \<noteq> []"
proof -
  from first_conflict [OF assms(6,5)] obtain pre b post
    where bs: "bundles = pre @ b # post" and pre: "pairwise_disjoint pre"
      and conflict: "common_keys b (concat pre) \<noteq> []" by blast
  from assms(5) bs have "list_all is_dict pre" by simp
  with pre have dist: "distinct (map fst (concat pre))" using disjoint_bundles_iff by blast
  from reads_split assms(4) bs obtain ps p qs
    where paths: "as_list path = ps @ p # qs" and reads: "map (vault_read w) ps = map Inr pre"
      and read: "vault_read w p = Inr b" by blast
  let ?wg = "w\<lparr>log := log w @ [GetSecretDeprecated], requests := requests w @ [Login]\<rparr>"
  from reads read have "map (vault_read ?wg) ps = map Inr pre" "vault_read ?wg p = Inr b" by simp_all
  from secret_loop_conflict [OF this(1) dist this(2) conflict, of qs]
  have "\<exists>w2. secret_loop (as_list path) [] ?wg = (w2, Inr (SecretsErrors (common_keys b (concat pre))))"
    by (simp add: paths)
  with get_secret_unfold [OF assms(1-3)] conflict show ?thesis by auto
qed

text \<open>
  A login without a token: \<open>_approle_login\<close> returns \<open>None\<close> (or raises), and
  \<open>read_path\<close> raises on \<open>client.token\<close> before it reads any path.
\<close>

lemma read_path_without_token:
  assumes "check_env_credentials w"
    and "token_missing (vault_login w h v)"
  shows "\<exists>w'. read_path h path to_environ v w =
                (w', Inl (if vault_login w h v = NoClientToken then KeyError
                          else if logger_bound w then AttributeError else NameError))
           \<and> requests w' = requests w @ [Login] \<and> environ w' = environ w"
proof (cases "vault_login w h v")
  case (LoginRaises e)
  with assms(2) show ?thesis by simp
next
  case NoClientToken
  with assms(1) show ?thesis by (simp add: read_path_def approle_login_def)
next
  case (ClientToken t)
  with assms show ?thesis
    by (cases "logger_bound w") (simp_all add: read_path_def approle_login_def logger_call_def)
qed

text \<open>
  With a logger bound, a program name in \<open>sys.argv\<close> and an upper-case name free of
  NUL characters, \<open>get_config_path\<close> writes \<open>APPNAME\<close> before it looks at
  \<open>DECONFPATH\<close> or fetches anything: the rest of the call starts from the
  environment that has it, and no later step changes it.
\<close>

lemma get_config_path_with_logger:
  assumes "logger_bound w"
    and "argv w = program # args"
    and "CHR 0x00 \<notin> set (appname w program)"
  shows "get_config_path h w =
           config_from_environment h
             (w\<lparr>log := log w @ [GetConfigPathDeprecated],
                environ := (environ w)(''APPNAME'' \<mapsto> appname w program)\<rparr>)"
  using assms
  by (simp add: get_config_path_def logger_call_def environ_setitem_def appname_def)

lemma config_from_environment_keeps:
  assumes "environ w k = Some x" and "config_from_environment h w = (w', r)"
  shows "environ w' k = Some x"
proof (cases "environ w ''DECONFPATH''")
  case (Some deconfpath)
  with assms(2) have "fetch_config h w = (w', r)" by (simp add: config_from_environment_def)
  from fetch_config_keeps [OF assms(1) this] show ?thesis .
next
  case None
  show ?thesis
  proof (cases "environ w ''env''")
    case no_env: None
    with None assms show ?thesis by (simp add: config_from_environment_def)
  next
    case (Some env)
    show ?thesis
    proof (cases "environ w ''APPNAME''")
      case no_name: None
      with None Some assms show ?thesis
        by (simp add: config_from_environment_def environ_getitem_def)
    next
      case name: (Some name)
      let ?path = "PStr (''dataeng/config/'' @ str_upper w env @ ''/'' @ name)"
      obtain w2 r2 where step: "environ_setitem ''DECONFPATH'' ?path w = (w2, r2)"
        by (cases "environ_setitem ''DECONFPATH'' ?path w")
      from environ_setitem_cases [OF step] assms(1) None have keep: "environ w2 k = Some x"
        by auto
      show ?thesis
      proof (cases r2)
        case (Inl e)
        with None Some name assms(2) step keep show ?thesis
          by (simp add: config_from_environment_def environ_getitem_def)
      next
        case (Inr u)
        with None Some name assms(2) step have "fetch_config h w2 = (w', r)"
          by (simp add: config_from_environment_def environ_getitem_def)
        from fetch_config_keeps [OF keep this] show ?thesis .
      qed
    qed
  qed
qed

lemma get_config_path_with_logger_sets_APPNAME:
  assumes "logger_bound w"
    and "argv w = program # args"
    and "CHR 0x00 \<notin> set (appname w program)"
  shows "environ (fst (get_config_path h w)) ''APPNAME'' = Some (appname w program)"
proof -
  let ?w1 = "w\<lparr>log := log w @ [GetConfigPathDeprecated],
               environ := (environ w)(''APPNAME'' \<mapsto> appname w program)\<rparr>"
  obtain w' r where run: "config_from_environment h ?w1 = (w', r)"
    by (cases "config_from_environment h ?w1")
  have "environ ?w1 ''APPNAME'' = Some (appname w program)" by simp
  from config_from_environment_keeps [OF this run] get_config_path_with_logger [OF assms] run
  show ?thesis by simp
qed

lemma get_config_path_with_logger_example:
  "environ (fst (get_config_path scenario_handler scenario)) ''APPNAME'' = Some ''ETL''
   \<and> snd (get_config_path scenario_handler scenario) = Inl CannotDetermineConfigPaths"
  by (simp add: scenario_simps method_simps get_config_path_def config_from_environment_def
        appname_def)

section \<open>The claims\<close>

text \<open>
  C1. Every operation that writes a secret mapping into the environment is to fail on a
  key that the environment already has, and to leave the value of that key as it was.
  \<open>_set_environments\<close> does so (\<open>set_plain_duplicate\<close>, \<open>set_environments_keeps\<close>).
  \<open>read_path\<close> with \<open>environ=True\<close> does not: with \<open>DB_USER=old\<close> in the
  environment and a secret \<open>DB_USER=a\<close> at the path, the call returns the bundle and
  the environment holds \<open>DB_USER=a\<close>.
\<close>

theorem read_path_overwrites_existing_key:
  "environ occupied ''DB_USER'' = Some ''old''
   \<and> snd (read_path scenario_handler (PStr ''app/db'') True (VerifyFlag True) occupied) = Inr db_bundle
   \<and> environ (fst (read_path scenario_handler (PStr ''app/db'') True (VerifyFlag True) occupied))
        ''DB_USER'' = Some ''a''"
  by (simp add: scenario_simps method_simps)

text \<open>
  C2, as amended. For a configuration entry whose key starts with \<open>VAULT_PATH_\<close>, a
  successful \<open>_set_environments\<close> has fetched the secrets of the referenced path,
  none of whose keys was in the environment, and the entry has added to the environment
  exactly these secrets and then the marker key itself, with the text of its value; the
  marker key still has that text when the whole batch is done.
\<close>

theorem marker_entry_is_written_with_its_secrets:
  assumes "prefix ''VAULT_PATH_'' key"
    and "set_environments h (pre @ (key, val) # post) w = (w', Inr ())"
  shows "\<exists>w1 w2 w3 secrets.
           set_environments h pre w = (w1, Inr ())
           \<and> get_secret h val w1 = (w2, Inr (SecretsOk secrets))
           \<and> set_entry h key val w1 = (w3, Inr ())
           \<and> environ w3 = (environ w1 ++ entries secrets)(key \<mapsto> text_of w val)
           \<and> dom (entries secrets) = set (keys secrets)
           \<and> set (keys secrets) \<inter> dom (environ w1) = {}
           \<and> environ w' key = Some (text_of w val)"
proof -
  obtain w1 r1 where pre: "set_environments h pre w = (w1, r1)" by (cases "set_environments h pre w")
  with assms(2) have r1: "r1 = Inr ()" and rest: "set_environments h ((key, val) # post) w1 = (w', Inr ())"
    by (auto simp: set_environments_append split: sum.splits)
  obtain w3 r3 where entry: "set_entry h key val w1 = (w3, r3)" by (cases "set_entry h key val w1")
  with rest have r3: "r3 = Inr ()" and post: "set_environments h post w3 = (w', Inr ())"
    by (auto split: sum.splits)
  obtain we re where ex: "expand h key val w1 = (we, re)" by (cases "expand h key val w1")
  with entry r3 assms(1) have re: "re = Inr ()" and plain: "set_plain key val we = (w3, Inr ())"
    by (auto simp: set_entry_def split: sum.splits)
  obtain w2 r2 where gs: "get_secret h val w1 = (w2, r2)" by (cases "get_secret h val w1")
  with ex re obtain secrets where r2: "r2 = Inr (SecretsOk secrets)"
    and ws: "write_secrets key val secrets w2 = (we, Inr ())"
    by (auto simp: expand_def split: sum.splits secret_result.splits)
  from get_secret_frame [OF gs] have f2: "environ w2 = environ w1" "json_dumps w2 = json_dumps w1"
    by simp_all
  from write_secrets_done [OF ws] f2
  have sec: "list_all storable secrets" "fst ` set secrets \<inter> dom (environ w1) = {}"
    "environ we = environ w1 ++ entries secrets" "json_dumps we = json_dumps w1" by simp_all
  from set_environments_json_dumps [OF pre] sec(4) have "text_of we val = text_of w val"
    by (cases val) (simp_all add: text_of_def)
  with set_plain_done [OF plain] sec(3)
  have e3: "environ w3 = (environ w1 ++ entries secrets)(key \<mapsto> text_of w val)" by simp
  then have "environ w3 key = Some (text_of w val)" by simp
  from set_environments_keeps [OF this post] have final: "environ w' key = Some (text_of w val)" .
  from sec(2) have "set (keys secrets) \<inter> dom (environ w1) = {}" by (simp add: keys_def)
  with pre r1 gs r2 entry r3 e3 dom_entries [OF sec(1)] final show ?thesis by blast
qed

theorem marker_entry_is_written_with_its_secrets_witness:
  "prefix ''VAULT_PATH_'' ''VAULT_PATH_DB''
   \<and> snd (set_environments scenario_handler [(''VAULT_PATH_DB'', PStr ''app/db'')] scenario) = Inr ()
   \<and> environ (fst (set_environments scenario_handler [(''VAULT_PATH_DB'', PStr ''app/db'')] scenario))
        ''VAULT_PATH_DB'' = Some ''app/db''"
proof -
  let ?run = "set_environments scenario_handler ([] @ (''VAULT_PATH_DB'', PStr ''app/db'') # []) scenario"
  have marker: "prefix ''VAULT_PATH_'' ''VAULT_PATH_DB''" by simp
  have ran: "?run = (fst ?run, Inr ())"
    by (simp add: scenario_simps method_simps)
  from marker_entry_is_written_with_its_secrets [OF marker ran]
  have "environ (fst ?run) ''VAULT_PATH_DB'' = Some (text_of scenario (PStr ''app/db''))" by blast
  moreover have "snd ?run = Inr ()" by (simp add: scenario_simps method_simps)
  ultimately show ?thesis using marker by (simp add: text_of_def)
qed

text \<open>
  C2 as stated says that the marker key is never written. For the configuration
  \<open>{"VAULT_PATH_DB": "app/db"}\<close> the call succeeds, and the environment has
  \<open>VAULT_PATH_DB=app/db\<close> next to \<open>DB_USER=a\<close>.
\<close>

theorem marker_key_is_written_counterexample:
  "snd (set_environments scenario_handler [(''VAULT_PATH_DB'', PStr ''app/db'')] scenario) = Inr ()
   \<and> environ (fst (set_environments scenario_handler [(''VAULT_PATH_DB'', PStr ''app/db'')] scenario))
        ''VAULT_PATH_DB'' = Some ''app/db''
   \<and> environ (fst (set_environments scenario_handler [(''VAULT_PATH_DB'', PStr ''app/db'')] scenario))
        ''DB_USER'' = Some ''a''"
  by (simp add: scenario_simps method_simps)

text \<open>
  C3. A merge over bundles that share a key is to fail with an error that names the
  shared keys. \<open>app/db\<close> and \<open>app/legacy-db\<close> share \<open>DB_USER\<close>. In the module as
  the source has it, \<open>read_path\<close> reaches \<open>logger.error\<close> at line 158 and raises
  \<open>NameError\<close>, and \<open>get_secret\<close> raises \<open>NameError\<close> at line 188: no key is
  named to anyone. With a logger bound, \<open>read_path\<close> gives \<open>DB_USER\<close> to the logger
  and then raises with a bare \<open>raise\<close>, a \<open>RuntimeError\<close> that names no key
  (\<open>merge_with_logger_stops_at_first_conflict\<close> has the general case).
\<close>

theorem duplicate_keys_are_not_named:
  "read_path scenario_handler (PList [PStr ''app/db'', PStr ''app/legacy-db'']) False (VerifyFlag True) shipped
     = (shipped\<lparr>requests := [Login, Read (PStr ''app/db''), Read (PStr ''app/legacy-db'')]\<rparr>,
        Inl NameError)
   \<and> get_secret scenario_handler (PList [PStr ''app/db'', PStr ''app/legacy-db'']) shipped
     = (shipped, Inl NameError)
   \<and> read_path scenario_handler (PList [PStr ''app/db'', PStr ''app/legacy-db'']) False (VerifyFlag True) scenario
     = (scenario\<lparr>requests := [Login, Read (PStr ''app/db''), Read (PStr ''app/legacy-db'')],
                 log := [DuplicateKeysFetched [''DB_USER'']]\<rparr>,
        Inl RuntimeError)"
  by (simp add: scenario_simps method_simps)

text \<open>
  C4. When the credentials are in the environment, the login yields a token and every
  path is read, \<open>read_path\<close> on bundles with pairwise disjoint keys succeeds and
  returns exactly the union of their key/value pairs, as a dictionary. With
  \<open>environ=True\<close> this needs the pairs to be ones that \<open>os.environ\<close> accepts.
\<close>

theorem read_path_merges_disjoint_bundles:
  assumes "check_env_credentials w"
    and "token_ok (vault_login w h v)"
    and "map (vault_read w) (as_list path) = map Inr bundles"
    and "list_all is_dict bundles"
    and "pairwise_disjoint bundles"
    and "to_environ \<longrightarrow> list_all storable (concat bundles)"
  shows "\<exists>w' results. read_path h path to_environ v w = (w', Inr results)
           \<and> set results = \<Union> (set ` set bundles) \<and> is_dict results"
proof -
  from assms(4,5) have dist: "distinct (map fst (concat bundles))"
    using disjoint_bundles_iff by blast
  from read_path_disjoint [OF assms(1-3) dist] assms(6)
  obtain w' where "read_path h path to_environ v w = (w', Inr (concat bundles))" by blast
  with dist show ?thesis by (auto simp: is_dict_def keys_def)
qed

theorem read_path_merges_disjoint_bundles_witness:
  "\<exists>w' results.
     read_path scenario_handler (PList [PStr ''app/db'', PStr ''app/cache'']) True (VerifyFlag True) scenario
       = (w', Inr results)
     \<and> set results = \<Union> (set ` set [db_bundle, cache_bundle]) \<and> is_dict results"
  by (rule read_path_merges_disjoint_bundles)
     (simp_all add: scenario_def scenario_handler_def VaultHandler_def check_env_credentials_def
        scenario_read_def db_bundle_def cache_bundle_def is_dict_def keys_def common_keys_def)

text \<open>
  C5. A login that returns an empty client token is to make \<open>read_path\<close> fail with
  the error that says so. \<open>read_path\<close> has the statements for it (lines 142 to 146),
  and \<open>get_secret\<close> raises its \<open>ValueError\<close> for the same login (line 196). But
  \<open>_approle_login\<close> returns \<open>None\<close> for such a token, so \<open>read_path\<close> never reaches
  them: it raises \<open>AttributeError\<close> on \<open>client.token\<close>, or \<open>NameError\<close> at line 55
  where no logger is bound. No path is read in either case (\<open>read_path_without_token\<close>
  has the general case).
\<close>

theorem missing_token_is_not_signalled:
  "read_path scenario_handler (PStr ''app/db'') False (VerifyFlag True) tokenless
     = (tokenless\<lparr>requests := [Login], log := [UnableToFetchToken]\<rparr>, Inl AttributeError)
   \<and> read_path scenario_handler (PStr ''app/db'') False (VerifyFlag True)
         (tokenless\<lparr>logger_bound := False\<rparr>)
     = (tokenless\<lparr>logger_bound := False, requests := [Login]\<rparr>, Inl NameError)
   \<and> get_secret scenario_handler (PStr ''app/db'') tokenless
     = (tokenless\<lparr>log := [GetSecretDeprecated], requests := [Login]\<rparr>,
        Inl CannotInstantiateClient)"
  by (simp add: scenario_simps method_simps)

text \<open>
  C6. \<open>get_secret\<close> is to return \<open>False\<close> with a description of the error, and not
  to raise, when two bundles share a key. Lines 210 to 215 do so, and with a logger
  bound the call returns \<open>False\<close> (\<open>get_secret_with_logger_returns_false\<close>). In the
  module as the source has it the call never gets there: \<open>logger.warning\<close> at line
  188 raises \<open>NameError\<close>, here on two paths that share \<open>DB_USER\<close>.
\<close>

theorem get_secret_raises_on_duplicates:
  "get_secret scenario_handler (PList [PStr ''app/db'', PStr ''app/legacy-db'']) shipped
     = (shipped, Inl NameError)
   \<and> common_keys legacy_bundle db_bundle = [''DB_USER'']"
  by (simp add: scenario_simps method_simps)

text \<open>
  C7. The two identifiers may be given to the constructor or come from the environment,
  and an operation is to pass the credentials check whenever both were supplied by
  either means. The check reads the environment only: a handler built with
  \<open>role_id="r"\<close> and \<open>secret_id="s"\<close>, which the server would accept, in a process
  without these variables, is refused by \<open>read_path\<close> and by \<open>get_secret\<close> before
  any request is sent.
\<close>

theorem constructor_credentials_are_rejected:
  "role_id explicit_handler = Some ''r'' \<and> secret_id explicit_handler = Some ''s''
   \<and> token_ok (vault_login bare explicit_handler (VerifyFlag True))
   \<and> read_path explicit_handler (PStr ''app/db'') False (VerifyFlag True) bare
        = (bare\<lparr>log := [CredentialsNotInEnvironment]\<rparr>, Inl RuntimeError)
   \<and> get_secret explicit_handler (PStr ''app/db'') bare
        = (bare\<lparr>log := [GetSecretDeprecated]\<rparr>, Inl CredentialsNotPresent)
   \<and> requests bare = []"
  by (simp add: scenario_simps method_simps)

text \<open>
  C8, as amended. When the entries before a \<open>VAULT_PATH_\<close> entry have been set and
  the nested \<open>get_secret\<close> fails, \<open>_set_environments\<close> raises and writes nothing
  more: the environment is the one that the earlier entries left. If \<open>get_secret\<close>
  returned \<open>False\<close> the exception names the marker key and its value; if it raised,
  its own exception goes on to the caller unchanged.
\<close>

theorem marker_entry_failure_stops_the_batch:
  assumes "prefix ''VAULT_PATH_'' key"
    and "set_environments h pre w = (w1, Inr ())"
    and "get_secret h val w1 = (w2, r)"
    and "fetch_failed r"
  shows "set_environments h (pre @ (key, val) # post) w =
           (w2, Inl (case r of Inl e \<Rightarrow> e | Inr s \<Rightarrow> VaultPathCannotRetrieve key val))
         \<and> environ w2 = environ w1"
proof -
  from assms(3,4) have "expand h key val w1 =
      (w2, Inl (case r of Inl e \<Rightarrow> e | Inr s \<Rightarrow> VaultPathCannotRetrieve key val))"
    by (cases r) (auto simp: expand_def split: secret_result.splits)
  with assms(1) have "set_entry h key val w1 =
      (w2, Inl (case r of Inl e \<Rightarrow> e | Inr s \<Rightarrow> VaultPathCannotRetrieve key val))"
    by (simp add: set_entry_def)
  with assms(2) get_secret_frame [OF assms(3)] show ?thesis
    by (simp add: set_environments_append)
qed

theorem marker_entry_failure_stops_the_batch_witness:
  "snd (set_environments scenario_handler
          [(''APP_MODE'', PStr ''batch''),
           (''VAULT_PATH_DB'', PList [PStr ''app/db'', PStr ''app/legacy-db'']),
           (''LATER'', PStr ''x'')] scenario)
     = Inl (VaultPathCannotRetrieve ''VAULT_PATH_DB'' (PList [PStr ''app/db'', PStr ''app/legacy-db'']))
   \<and> environ (fst (set_environments scenario_handler
          [(''APP_MODE'', PStr ''batch''),
           (''VAULT_PATH_DB'', PList [PStr ''app/db'', PStr ''app/legacy-db'']),
           (''LATER'', PStr ''x'')] scenario))
     = (environ scenario)(''APP_MODE'' \<mapsto> ''batch'')"
proof -
  let ?pre = "[(''APP_MODE'', PStr ''batch'')]"
  let ?val = "PList [PStr ''app/db'', PStr ''app/legacy-db'']"
  let ?w1 = "fst (set_environments scenario_handler ?pre scenario)"
  let ?fetch = "get_secret scenario_handler ?val ?w1"
  have marker: "prefix ''VAULT_PATH_'' ''VAULT_PATH_DB''" by simp
  have before: "set_environments scenario_handler ?pre scenario = (?w1, Inr ())"
    by (simp add: scenario_simps method_simps)
  have env1: "environ ?w1 = (environ scenario)(''APP_MODE'' \<mapsto> ''batch'')"
    by (simp add: scenario_simps method_simps)
  have fetch: "?fetch = (fst ?fetch, snd ?fetch)" by simp
  have failed: "snd ?fetch = Inr (SecretsErrors [''DB_USER''])"
    by (simp add: scenario_simps method_simps)
  then have "fetch_failed (snd ?fetch)" by simp
  from marker_entry_failure_stops_the_batch [OF marker before fetch this, of "[(''LATER'', PStr ''x'')]"]
  show ?thesis using failed env1 by simp
qed

text \<open>
  C8 as stated has every failure of the nested fetch reported by an error that
  identifies the marker key. When the server refuses the path, the exception of the
  client is what the caller gets.
\<close>

theorem nested_fetch_error_propagates_counterexample:
  "snd (set_environments scenario_handler
          [(''APP_MODE'', PStr ''batch''), (''VAULT_PATH_DB'', PStr ''app/missing'')] scenario)
     = Inl (Hvac ''InvalidPath'')
   \<and> snd (set_environments scenario_handler
          [(''APP_MODE'', PStr ''batch''), (''VAULT_PATH_DB'', PStr ''app/missing'')] scenario)
     \<noteq> Inl (VaultPathCannotRetrieve ''VAULT_PATH_DB'' (PStr ''app/missing''))"
  by (simp add: scenario_simps method_simps)

text \<open>
  C9. Under the conditions of C4, \<open>read_path\<close> on any permutation of the paths
  succeeds as well, and the two results are the same dictionary: the same pairs, the
  same value for every key, and, with \<open>environ=True\<close>, the same environment.
\<close>

theorem read_path_order_independent:
  assumes "check_env_credentials w"
    and "token_ok (vault_login w h v)"
    and "map (vault_read w) (as_list path) = map Inr bundles"
    and "list_all is_dict bundles"
    and "pairwise_disjoint bundles"
    and "to_environ \<longrightarrow> list_all storable (concat bundles)"
    and "mset permuted = mset (as_list path)"
  shows "\<exists>w1 w2 r1 r2.
           read_path h path to_environ v w = (w1, Inr r1)
           \<and> read_path h (PList permuted) to_environ v w = (w2, Inr r2)
           \<and> set r1 = set r2 \<and> map_of r1 = map_of r2 \<and> environ w1 = environ w2"
proof -
  from assms(4,5) have dist: "distinct (map fst (concat bundles))"
    using disjoint_bundles_iff by blast
  from reads_permuted [OF assms(3,7)] obtain bundles'
    where reads': "map (vault_read w) (as_list (PList permuted)) = map Inr bundles'"
      and perm: "mset bundles' = mset bundles" by auto
  have conc: "mset (concat bundles') = mset (concat bundles)"
    using perm by (rule concat_permuted)
  then have same: "set (concat bundles') = set (concat bundles)" by (rule mset_eq_setD)
  from conc have "mset (map fst (concat bundles')) = mset (map fst (concat bundles))"
    by (metis mset_map)
  with dist have dist': "distinct (map fst (concat bundles'))"
    by (metis mset_eq_imp_distinct_iff)
  from same assms(6) have env': "to_environ \<Longrightarrow> list_all storable (concat bundles')"
    by (simp add: list_all_iff)
  from read_path_disjoint [OF assms(1-3) dist] assms(6)
  obtain w1 where r1: "read_path h path to_environ v w = (w1, Inr (concat bundles))"
    and e1: "environ w1 = (if to_environ then environ w ++ entries (concat bundles) else environ w)"
    by blast
  from read_path_disjoint [OF assms(1,2) reads' dist' env']
  obtain w2 where r2: "read_path h (PList permuted) to_environ v w = (w2, Inr (concat bundles'))"
    and e2: "environ w2 = (if to_environ then environ w ++ entries (concat bundles') else environ w)"
    by blast
  have maps: "map_of (concat bundles) = map_of (concat bundles')"
    using dist same by (intro map_of_inject_set [THEN iffD2]) (auto simp: dist')
  then have "entries (concat bundles) = entries (concat bundles')"
    by (simp add: entries_def fun_eq_iff)
  with e1 e2 have "environ w1 = environ w2" by simp
  with r1 r2 same maps show ?thesis by auto
qed

theorem read_path_order_independent_witness:
  "\<exists>w1 w2 r1 r2.
     read_path scenario_handler (PList [PStr ''app/db'', PStr ''app/cache'']) True (VerifyFlag True) scenario
       = (w1, Inr r1)
     \<and> read_path scenario_handler (PList [PStr ''app/cache'', PStr ''app/db'']) True (VerifyFlag True) scenario
       = (w2, Inr r2)
     \<and> set r1 = set r2 \<and> map_of r1 = map_of r2 \<and> environ w1 = environ w2"
  by (rule read_path_order_independent [where bundles = "[db_bundle, cache_bundle]"])
     (simp_all add: scenario_def scenario_handler_def VaultHandler_def check_env_credentials_def
        scenario_read_def db_bundle_def cache_bundle_def is_dict_def keys_def common_keys_def)

text \<open>
  C10. Every call of \<open>get_config_path\<close> is to set \<open>APPNAME\<close> before anything else
  can fail. Line 231 does so, and with a logger bound the write comes before the look
  at \<open>DECONFPATH\<close> and before every fetch (\<open>get_config_path_with_logger\<close>). In the
  module as the source has it, \<open>logger.warning\<close> at line 230 comes first and raises
  \<open>NameError\<close>: the call ends there and \<open>APPNAME\<close> is not set.
\<close>

theorem get_config_path_raises_before_APPNAME:
  "get_config_path scenario_handler shipped = (shipped, Inl NameError)
   \<and> environ (fst (get_config_path scenario_handler shipped)) ''APPNAME'' = None"
  by (simp add: scenario_simps method_simps get_config_path_def)

end
